theory Spec2Isabelle
  imports Main "HOL-Library.Sublist"
begin

section \<open>Paths and the filesystem\<close>

text \<open>
  A \<^verbatim>\<open>pathlib.Path\<close> (POSIX flavour) is modelled by its \<^verbatim>\<open>parts\<close> tuple: the anchor
  (\<^verbatim>\<open>/\<close> or \<^verbatim>\<open>//\<close>) first when the path is absolute, then the components.
  Two \<^verbatim>\<open>Path\<close> objects are equal exactly when their parts are.
\<close>

type_synonym path = "string list"

text \<open>Exceptions of Python, of pathlib and of GitPython that the modelled code can meet.\<close>

datatype error =
    ValueError
  | TypeError
  | RuntimeError
  | PermissionError
  | NotADirectoryError
  | FileNotFoundError
  | InvalidGitRepositoryError
  | NoSuchPathError
  | GitCommandError
  | AssertionError

text \<open>
  The operations of pathlib that the program calls on the filesystem. \<^verbatim>\<open>exists\<close> and
  \<^verbatim>\<open>is_dir\<close> follow symbolic links and are used by the source as plain booleans;
  \<^verbatim>\<open>iterdir\<close> (given here by the entry names it yields, each child being
  \<^verbatim>\<open>directory / name\<close>) and \<^verbatim>\<open>resolve\<close> may raise. \<^verbatim>\<open>is_symlink\<close> is never called by
  the program; it is part of the record only so that statements can speak of links.
\<close>

record filesystem =
  fs_exists :: "path \<Rightarrow> bool"
  fs_is_dir :: "path \<Rightarrow> bool"
  fs_iterdir :: "path \<Rightarrow> error + string list"
  fs_resolve :: "path \<Rightarrow> error + path"
  fs_is_symlink :: "path \<Rightarrow> bool"

text \<open>\<^verbatim>\<open>str.split(sep)\<close> for a one-character separator.\<close>

fun split_on :: "char \<Rightarrow> string \<Rightarrow> string list" where
  "split_on c [] = [[]]"
| "split_on c (x # xs) =
     (if x = c then [] # split_on c xs
      else (case split_on c xs of [] \<Rightarrow> [[x]] | w # ws \<Rightarrow> (x # w) # ws))"

text \<open>
  \<^verbatim>\<open>Path(s)\<close>: the anchor is \<^verbatim>\<open>//\<close> for exactly two leading slashes and \<^verbatim>\<open>/\<close> for one
  or for three and more; empty components and \<^verbatim>\<open>.\<close> are dropped, \<^verbatim>\<open>..\<close> is kept.
\<close>

definition anchor_of :: "string \<Rightarrow> string list" where
  "anchor_of s =
     (if take 1 s \<noteq> ''/'' then []
      else if take 2 s = ''//'' \<and> take 3 s \<noteq> ''///'' then [''//'']
      else [''/''])"

definition Path :: "string \<Rightarrow> path" where
  "Path s = anchor_of s @ filter (\<lambda>x. x \<noteq> [] \<and> x \<noteq> ''.'') (split_on CHR ''/'' s)"

text \<open>\<^verbatim>\<open>Path.name\<close>: the last component, empty for a bare anchor or the empty path.\<close>

definition name :: "path \<Rightarrow> string" where
  "name p =
     (if p = [] \<or> p = [''/''] \<or> p = [''//''] then [] else last p)"

definition startswith :: "string \<Rightarrow> string \<Rightarrow> bool" where
  "startswith s pre = (take (length pre) s = pre)"

section \<open>The repository scanner (core/repository\_scanner.py)\<close>

definition is_git_repository :: "filesystem \<Rightarrow> path \<Rightarrow> bool" where
  "is_git_repository fs p = fs_is_dir fs (p @ [''.git''])"

text \<open>
  The closure \<^verbatim>\<open>_scan(directory, depth)\<close> appends to the list \<^verbatim>\<open>repositories\<close> of the
  enclosing call; the list is passed in and returned here. \<open>scan_children\<close> is the
  \<^verbatim>\<open>for child in directory.iterdir()\<close> loop over the names still to come. An exception
  ends the traversal, and the list is lost with it.
\<close>

function scan :: "filesystem \<Rightarrow> int \<Rightarrow> path \<Rightarrow> int \<Rightarrow> path list \<Rightarrow> error + path list"
  and scan_children ::
    "filesystem \<Rightarrow> int \<Rightarrow> path \<Rightarrow> string list \<Rightarrow> int \<Rightarrow> path list \<Rightarrow> error + path list"
where
  "scan fs max_depth directory depth repositories =
     (if depth > max_depth then Inr repositories
      else if is_git_repository fs directory then Inr (repositories @ [directory])
      else (case fs_iterdir fs directory of
              Inl e \<Rightarrow> Inl e
            | Inr names \<Rightarrow> scan_children fs max_depth directory names depth repositories))"
| "scan_children fs max_depth directory [] depth repositories = Inr repositories"
| "scan_children fs max_depth directory (n # names) depth repositories =
     (if fs_is_dir fs (directory @ [n]) \<and> \<not> startswith (name (directory @ [n])) ''.''
      then (case scan fs max_depth (directory @ [n]) (depth + 1) repositories of
              Inl e \<Rightarrow> Inl e
            | Inr repositories' \<Rightarrow>
                scan_children fs max_depth directory names depth repositories')
      else scan_children fs max_depth directory names depth repositories)"
  by pat_completeness auto
termination
  by (relation "measures
        [\<lambda>x. case x of
               Inl (fs, m, d, k, r) \<Rightarrow> 2 * nat (m + 1 - k)
             | Inr (fs, m, d, ns, k, r) \<Rightarrow> 2 * nat (m - k) + 1,
         \<lambda>x. case x of
               Inl (fs, m, d, k, r) \<Rightarrow> 0
             | Inr (fs, m, d, ns, k, r) \<Rightarrow> length ns]") auto

definition scan_for_repositories :: "filesystem \<Rightarrow> path \<Rightarrow> int \<Rightarrow> error + path list" where
  "scan_for_repositories fs base_directory max_depth =
     (if \<not> fs_exists fs base_directory then Inr []
      else (case fs_resolve fs base_directory of
              Inl e \<Rightarrow> Inl e
            | Inr base \<Rightarrow> scan fs max_depth base 0 []))"


section \<open>Collecting the repositories at startup (main.py)\<close>

text \<open>
  The persisted list \<^verbatim>\<open>config.preferences.get("repositories", [])\<close> is read from a JSON
  document, so an entry is a string or some other JSON value (number, null, boolean,
  array, object). \<^verbatim>\<open>Path(p)\<close> accepts the former and raises \<^verbatim>\<open>TypeError\<close> on the latter.
  Of \<^verbatim>\<open>AppConfig\<close> only the two fields read here are kept.
\<close>

datatype json = JString string | JOther

record AppConfig =
  base_directory :: string
  repositories :: "json list"

text \<open>The comprehension \<^verbatim>\<open>[Path(p) for p in ...]\<close>; the first bad entry ends it.\<close>

fun stored_paths :: "json list \<Rightarrow> error + path list" where
  "stored_paths [] = Inr []"
| "stored_paths (JString s # ps) =
     (case stored_paths ps of Inl e \<Rightarrow> Inl e | Inr qs \<Rightarrow> Inr (Path s # qs))"
| "stored_paths (JOther # ps) = Inl TypeError"

text \<open>
  The loop \<^verbatim>\<open>for repo in stored + scanned\<close> with its two variables \<^verbatim>\<open>seen\<close> and
  \<^verbatim>\<open>merged\<close>. \<^verbatim>\<open>repo.resolve()\<close> is not guarded, so its exception leaves the loop and
  the function.
\<close>

fun merge_loop :: "filesystem \<Rightarrow> path list \<Rightarrow> path set \<Rightarrow> path list \<Rightarrow> error + path list" where
  "merge_loop fs [] seen merged = Inr merged"
| "merge_loop fs (repo # rest) seen merged =
     (case fs_resolve fs repo of
        Inl e \<Rightarrow> Inl e
      | Inr r \<Rightarrow>
          (if r \<notin> seen then merge_loop fs rest (insert r seen) (merged @ [r])
           else merge_loop fs rest seen merged))"

text \<open>Lines 36 to 43 of \<^verbatim>\<open>_collect_repositories\<close>: the merge of the two lists.\<close>

definition merge_repositories :: "filesystem \<Rightarrow> path list \<Rightarrow> path list \<Rightarrow> error + path list" where
  "merge_repositories fs stored scanned = merge_loop fs (stored @ scanned) {} []"

text \<open>
  \<^verbatim>\<open>_collect_repositories(config)\<close>; the scan runs with the default \<^verbatim>\<open>max_depth = 2\<close>.
\<close>

definition collect_repositories :: "filesystem \<Rightarrow> AppConfig \<Rightarrow> error + path list" where
  "collect_repositories fs config =
     (case stored_paths (repositories config) of
        Inl e \<Rightarrow> Inl e
      | Inr stored \<Rightarrow>
          (if base_directory config \<noteq> []
           then (case scan_for_repositories fs (Path (base_directory config)) 2 of
                   Inl e \<Rightarrow> Inl e
                 | Inr scanned \<Rightarrow> merge_repositories fs stored scanned)
           else Inr stored))"

section \<open>Adding a repository by hand (ui/main\_window.py)\<close>


section \<open>The Git manager (gitboss/core/git\_manager.py)\<close>

text \<open>
  What an opened \<^verbatim>\<open>git.Repo\<close> answers to the four queries of the manager, each either
  a value or the exception GitPython raises:
  \<^verbatim>\<open>repo.is_dirty(untracked_files=True)\<close>,
  \<^verbatim>\<open>[branch.name for branch in repo.branches]\<close>,
  \<^verbatim>\<open>repo.active_branch.name\<close> and
  \<^verbatim>\<open>repo.git.status(porcelain=True).splitlines()\<close>.
  The constructor \<^verbatim>\<open>Repo(path)\<close> is a function from paths to such a handle or an
  exception.
\<close>

record git_repo =
  repo_is_dirty :: "error + bool"
  repo_branches :: "error + string list"
  repo_active_branch :: "error + string"
  repo_status :: "error + string list"


record GitManager =
  repo_path :: path
  repo :: "git_repo option"











section \<open>Notions used in the statements\<close>

text \<open>
  The loop enters the entry \<open>n\<close> of the directory \<open>d\<close> when it is a directory whose name
  does not begin with a dot.
\<close>

definition enters :: "filesystem \<Rightarrow> path \<Rightarrow> string \<Rightarrow> bool" where
  "enters fs d n = (fs_is_dir fs (d @ [n]) \<and> \<not> startswith n ''.'')"

text \<open>
  \<open>reach fs d j p\<close>: the directory \<open>p\<close> lies \<open>j\<close> levels below \<open>d\<close>, and every directory
  on the way from \<open>d\<close> down to the parent of \<open>p\<close> is no repository, can be listed, and
  lists the next one as an entry that the loop enters.
\<close>

inductive reach :: "filesystem \<Rightarrow> path \<Rightarrow> nat \<Rightarrow> path \<Rightarrow> bool" for fs where
  reach_here: "reach fs d 0 d"
| reach_child:
    "\<not> is_git_repository fs d \<Longrightarrow> fs_iterdir fs d = Inr names \<Longrightarrow> n \<in> set names \<Longrightarrow>
     enters fs d n \<Longrightarrow> reach fs (d @ [n]) j p \<Longrightarrow>
     reach fs d (Suc j) p"

text \<open>
  The directories a call \<^verbatim>\<open>_scan(d, k)\<close> and its recursive calls inspect: those reached
  from \<open>d\<close> at a depth that does not exceed the bound. The repositories among them are
  the ones the call finds.
\<close>

definition visited :: "filesystem \<Rightarrow> int \<Rightarrow> path \<Rightarrow> int \<Rightarrow> path set" where
  "visited fs m d k = {p. \<exists>j. k + int j \<le> m \<and> reach fs d j p}"

definition found_below :: "filesystem \<Rightarrow> int \<Rightarrow> path \<Rightarrow> int \<Rightarrow> path set" where
  "found_below fs m d k = {p. \<exists>j. k + int j \<le> m \<and> reach fs d j p \<and> is_git_repository fs p}"



text \<open>A path can be resolved; its canonical form is what \<^verbatim>\<open>resolve\<close> returns.\<close>

definition resolvable :: "filesystem \<Rightarrow> path \<Rightarrow> bool" where
  "resolvable fs p = (\<not> isl (fs_resolve fs p))"

definition canonical :: "filesystem \<Rightarrow> path \<Rightarrow> path" where
  "canonical fs p = (case fs_resolve fs p of Inr q \<Rightarrow> q | Inl e \<Rightarrow> p)"

text \<open>
  The specification of the merge, in its words: of a sequence, keep the first occurrence
  of each value, in the order of first occurrence. The element at position \<open>i\<close> stays
  when it does not occur before \<open>i\<close>.
\<close>

definition first_occurrences :: "'a list \<Rightarrow> 'a list" where
  "first_occurrences xs = [xs ! i. i \<leftarrow> [0..<length xs], xs ! i \<notin> set (take i xs)]"

text \<open>The same filter when the values of \<open>S\<close> count as seen from the start.\<close>

fun fresh :: "'a set \<Rightarrow> 'a list \<Rightarrow> 'a list" where
  "fresh S [] = []"
| "fresh S (x # xs) = (if x \<in> S then fresh S xs else x # fresh (insert x S) xs)"

section \<open>Example filesystems and repositories\<close>

text \<open>
  A filesystem given by two tables: the directories (each path under which a directory
  can be reached, with the names \<^verbatim>\<open>iterdir\<close> yields there or the exception it raises)
  and the outcome of \<^verbatim>\<open>resolve\<close> where it is not the path itself; and by the list of
  the paths that are symbolic links. A path that is missing from the first table is no
  directory: it is absent, or a regular file named in a listing. The program asks
  \<^verbatim>\<open>exists\<close> of base directories only, and the answer is taken from the same table.
\<close>

definition mk_fs ::
  "(path \<times> (error + string list)) list \<Rightarrow> (path \<times> (error + path)) list \<Rightarrow> path list \<Rightarrow> filesystem"
where
  "mk_fs dirs resolutions links =
     \<lparr>fs_exists = (\<lambda>p. map_of dirs p \<noteq> None),
      fs_is_dir = (\<lambda>p. map_of dirs p \<noteq> None),
      fs_iterdir = (\<lambda>p. case map_of dirs p of Some r \<Rightarrow> r | None \<Rightarrow> Inl NotADirectoryError),
      fs_resolve = (\<lambda>p. case map_of resolutions p of Some r \<Rightarrow> r | None \<Rightarrow> Inr p),
      fs_is_symlink = (\<lambda>p. p \<in> set links)\<rparr>"

text \<open>
  A base directory \<^verbatim>\<open>/.w\<close> with a repository \<^verbatim>\<open>a\<close> at depth 1, a repository \<^verbatim>\<open>x/b\<close> at
  depth 2 that holds a nested working tree \<^verbatim>\<open>x/b/sub\<close>, a repository \<^verbatim>\<open>c/d/e\<close> at
  depth 3, a repository \<^verbatim>\<open>.h/r\<close> below a hidden directory, and a hidden directory
  \<^verbatim>\<open>.dot\<close> that is itself a repository.
\<close>

definition fs_tree :: filesystem where
  "fs_tree = mk_fs
     [([''/'', ''.w''], Inr [''a'', ''x'', ''c'', ''.h'', ''.dot'', ''notes.txt'']),
      ([''/'', ''.w'', ''a''], Inr [''.git'', ''src'']),
      ([''/'', ''.w'', ''a'', ''.git''], Inr []),
      ([''/'', ''.w'', ''a'', ''src''], Inr []),
      ([''/'', ''.w'', ''x''], Inr [''b'']),
      ([''/'', ''.w'', ''x'', ''b''], Inr [''.git'', ''sub'']),
      ([''/'', ''.w'', ''x'', ''b'', ''.git''], Inr []),
      ([''/'', ''.w'', ''x'', ''b'', ''sub''], Inr [''.git'']),
      ([''/'', ''.w'', ''x'', ''b'', ''sub'', ''.git''], Inr []),
      ([''/'', ''.w'', ''c''], Inr [''d'']),
      ([''/'', ''.w'', ''c'', ''d''], Inr [''e'']),
      ([''/'', ''.w'', ''c'', ''d'', ''e''], Inr [''.git'']),
      ([''/'', ''.w'', ''c'', ''d'', ''e'', ''.git''], Inr []),
      ([''/'', ''.w'', ''.h''], Inr [''r'']),
      ([''/'', ''.w'', ''.h'', ''r''], Inr [''.git'']),
      ([''/'', ''.w'', ''.h'', ''r'', ''.git''], Inr []),
      ([''/'', ''.w'', ''.dot''], Inr [''.git'']),
      ([''/'', ''.w'', ''.dot'', ''.git''], Inr [])]
     [] []"



text \<open>
  Resolution only: \<^verbatim>\<open>/link\<close> is a symbolic link to \<^verbatim>\<open>/repo2\<close>, the relative path
  \<^verbatim>\<open>repo3\<close> resolves against the working directory \<^verbatim>\<open>/cwd\<close>, and the two entries
  \<^verbatim>\<open>/loop\<close> (a link to itself) and the name holding a null byte cannot be resolved.
\<close>

definition fs_paths :: filesystem where
  "fs_paths = mk_fs []
     [([''/'', ''link''], Inr [''/'', ''repo2'']),
      ([''repo3''], Inr [''/'', ''cwd'', ''repo3'']),
      ([''/'', ''loop''], Inl RuntimeError),
      ([[CHR 0x00]], Inl ValueError)]
     [[''/'', ''link''], [''/'', ''loop'']]"


section \<open>The traversal: auxiliary facts\<close>

declare scan.simps [simp del]

lemma name_child: "startswith (name (d @ [n])) ''.'' = startswith n ''.''"
  by (cases d) (auto simp: name_def startswith_def)

lemma enters_code:
  "(fs_is_dir fs (d @ [n]) \<and> \<not> startswith (name (d @ [n])) ''.'') = enters fs d n"
  by (simp add: enters_def name_child)

lemma found_below_beyond: "m < k \<Longrightarrow> found_below fs m d k = {}"
  by (auto simp: found_below_def)

lemma found_below_repo:
  "k \<le> m \<Longrightarrow> is_git_repository fs d \<Longrightarrow> found_below fs m d k = {d}"
  unfolding found_below_def
  apply (auto elim: reach.cases intro: reach_here)
  apply (rule exI[of _ 0]) apply (auto intro: reach_here)
  done

lemma found_below_dir:
  assumes "\<not> is_git_repository fs d" "fs_iterdir fs d = Inr names"
  shows "found_below fs m d k =
     (\<Union>n \<in> {n \<in> set names. enters fs d n}.
        found_below fs m (d @ [n]) (k + 1))"
proof (intro set_eqI iffI)
  fix p assume "p \<in> found_below fs m d k"
  then obtain j where j: "k + int j \<le> m" "reach fs d j p" "is_git_repository fs p"
    by (auto simp: found_below_def)
  from j(2) show "p \<in> (\<Union>n \<in> {n \<in> set names. enters fs d n}.
        found_below fs m (d @ [n]) (k + 1))"
  proof cases
    case reach_here
    with j(3) assms(1) show ?thesis by simp
  next
    case (reach_child names' n j')
    with assms(2) have "n \<in> set names" by simp
    moreover have "k + 1 + int j' \<le> m" using j(1) reach_child(1) by simp
    ultimately show ?thesis using reach_child j(3)
      by (auto simp: found_below_def)
  qed
next
  fix p assume "p \<in> (\<Union>n \<in> {n \<in> set names. enters fs d n}.
        found_below fs m (d @ [n]) (k + 1))"
  then obtain n j where n: "n \<in> set names" "enters fs d n"
    and j: "k + 1 + int j \<le> m" "reach fs (d @ [n]) j p" "is_git_repository fs p"
    by (auto simp: found_below_def)
  have "reach fs d (Suc j) p"
    using assms n j(2) by (rule reach_child)
  moreover have "k + int (Suc j) \<le> m" using j(1) by simp
  ultimately show "p \<in> found_below fs m d k"
    using j(3) unfolding found_below_def by blast
qed

lemma scan_acc_all:
  fixes r0 :: "path list"
  shows "\<forall>r. scan fs m d k r = (case scan fs m d k [] of Inl e \<Rightarrow> Inl e | Inr f \<Rightarrow> Inr (r @ f))"
  and "\<forall>r. scan_children fs m d ns k r =
     (case scan_children fs m d ns k [] of Inl e \<Rightarrow> Inl e | Inr f \<Rightarrow> Inr (r @ f))"
proof (induction fs m d k r0 and fs m d ns k r0 rule: scan_scan_children.induct)
  case (1 fs m d k r0)
  then show ?case by (simp add: scan.simps[of fs m d k] split: sum.splits)
next
  case (2 fs m d k r0)
  then show ?case by simp
next
  case (3 fs m d n ns k r0)
  show ?case
  proof (cases "fs_is_dir fs (d @ [n]) \<and> \<not> startswith (name (d @ [n])) ''.''")
    case True
    note ih1 = "3.IH"(1)[OF True]
    show ?thesis
    proof (cases "scan fs m (d @ [n]) (k + 1) []")
      case (Inl e)
      have "scan fs m (d @ [n]) (k + 1) r = Inl e" for r
        using spec[OF ih1, of r] by (simp add: Inl)
      then show ?thesis using True by simp
    next
      case (Inr f)
      have a: "scan fs m (d @ [n]) (k + 1) r = Inr (r @ f)" for r
        using spec[OF ih1, of r] by (simp add: Inr)
      note ih2 = "3.IH"(2)[OF True a]
      show ?thesis
      proof
        fix r
        have "scan_children fs m d (n # ns) k r = scan_children fs m d ns k (r @ f)"
          using True a by simp
        also have "\<dots> = (case scan_children fs m d ns k [] of
                            Inl e \<Rightarrow> Inl e | Inr g \<Rightarrow> Inr ((r @ f) @ g))"
          using spec[OF ih2, of "r @ f"] .
        finally have l: "scan_children fs m d (n # ns) k r = (case scan_children fs m d ns k [] of
                            Inl e \<Rightarrow> Inl e | Inr g \<Rightarrow> Inr ((r @ f) @ g))" .
        have "scan_children fs m d (n # ns) k [] = scan_children fs m d ns k f"
          using True Inr by simp
        also have "\<dots> = (case scan_children fs m d ns k [] of
                            Inl e \<Rightarrow> Inl e | Inr g \<Rightarrow> Inr (f @ g))"
          using spec[OF ih2, of f] .
        finally show "scan_children fs m d (n # ns) k r =
          (case scan_children fs m d (n # ns) k [] of Inl e \<Rightarrow> Inl e | Inr g \<Rightarrow> Inr (r @ g))"
          using l by (simp split: sum.splits)
      qed
    qed
  next
    case False
    have "scan_children fs m d (n # ns) k r = scan_children fs m d ns k r" for r
      using False by auto
    note e = this
    show ?thesis
    proof
      fix r
      show "scan_children fs m d (n # ns) k r =
        (case scan_children fs m d (n # ns) k [] of Inl e \<Rightarrow> Inl e | Inr g \<Rightarrow> Inr (r @ g))"
        unfolding e[of r] e[of "[]"] using spec[OF "3.IH"(3)[OF False], of r] .
    qed
  qed
qed

lemma scan_acc:
  "scan fs m d k r = (case scan fs m d k [] of Inl e \<Rightarrow> Inl e | Inr f \<Rightarrow> Inr (r @ f))"
  using scan_acc_all(1) by blast

lemma scan_children_acc:
  "scan_children fs m d ns k r =
     (case scan_children fs m d ns k [] of Inl e \<Rightarrow> Inl e | Inr f \<Rightarrow> Inr (r @ f))"
  using scan_acc_all(2) by blast






lemma found_below_visited:
  "found_below fs m d k = {p \<in> visited fs m d k. is_git_repository fs p}"
  by (auto simp: found_below_def visited_def)

lemma scan_children_Cons:
  "scan_children fs m d (n # ns) k [] =
     (if enters fs d n
      then (case scan fs m (d @ [n]) (k + 1) [] of
              Inl e \<Rightarrow> Inl e
            | Inr f \<Rightarrow> (case scan_children fs m d ns k [] of
                          Inl e \<Rightarrow> Inl e | Inr g \<Rightarrow> Inr (f @ g)))
      else scan_children fs m d ns k [])"
proof (cases "scan fs m (d @ [n]) (k + 1) []")
  case (Inl e)
  then show ?thesis by (simp add: enters_code scan_children.simps(2))
next
  case (Inr f)
  then show ?thesis
    using scan_children_acc[of fs m d ns k f] by (simp add: enters_code scan_children.simps(2))
qed

declare scan_children.simps(2) [simp del]

lemma scan_unfold:
  "scan fs m d k [] =
     (if m < k then Inr []
      else if is_git_repository fs d then Inr [d]
      else (case fs_iterdir fs d of
              Inl e \<Rightarrow> Inl e
            | Inr names \<Rightarrow> scan_children fs m d names k []))"
  by (simp add: scan.simps[of fs m d k "[]"])

lemma scan_found_all:
  fixes r0 :: "path list"
  shows "\<forall>f. scan fs m d k [] = Inr f \<longrightarrow> set f = found_below fs m d k"
    and "\<forall>f. scan_children fs m d ns k [] = Inr f \<longrightarrow>
           set f = (\<Union>n \<in> {n \<in> set ns. enters fs d n}. found_below fs m (d @ [n]) (k + 1))"
proof (induction fs m d k r0 and fs m d ns k r0 rule: scan_scan_children.induct)
  case (1 fs m d k r0)
  show ?case
  proof (intro allI impI)
    fix f assume f: "scan fs m d k [] = Inr f"
    consider "m < k" | "k \<le> m" "is_git_repository fs d" | "k \<le> m" "\<not> is_git_repository fs d"
      by linarith
    then show "set f = found_below fs m d k"
    proof cases
      case 1
      then show ?thesis using f by (simp add: scan_unfold found_below_beyond)
    next
      case 2
      then show ?thesis using f by (auto simp add: scan_unfold found_below_repo)
    next
      case 3
      then obtain names where names: "fs_iterdir fs d = Inr names"
        using f by (auto simp: scan_unfold split: sum.splits)
      have "scan_children fs m d names k [] = Inr f"
        using f 3 names by (simp add: scan_unfold)
      moreover have "\<not> m < k" using 3 by simp
      ultimately show ?thesis
        using "1.IH"[OF _ 3(2) names] found_below_dir[OF 3(2) names, of m k] by simp
    qed
  qed
next
  case (2 fs m d k r0)
  then show ?case by simp
next
  case (3 fs m d n ns k r0)
  show ?case
  proof (intro allI impI)
    fix f assume f: "scan_children fs m d (n # ns) k [] = Inr f"
    show "set f = (\<Union>x \<in> {x \<in> set (n # ns). enters fs d x}. found_below fs m (d @ [x]) (k + 1))"
    proof (cases "enters fs d n")
      case True
      then have c: "fs_is_dir fs (d @ [n]) \<and> \<not> startswith (name (d @ [n])) ''.''"
        by (simp add: enters_code)
      from f True obtain f1 g where f1: "scan fs m (d @ [n]) (k + 1) [] = Inr f1"
        and g: "scan_children fs m d ns k [] = Inr g" and fg: "f = f1 @ g"
        by (auto simp: scan_children_Cons split: sum.splits)
      have a: "scan fs m (d @ [n]) (k + 1) r0 = Inr (r0 @ f1)"
        using scan_acc[of fs m "d @ [n]" "k + 1" r0] f1 by simp
      have "set f1 = found_below fs m (d @ [n]) (k + 1)"
        using "3.IH"(1)[OF c] f1 by blast
      moreover have "set g = (\<Union>n \<in> {n \<in> set ns. enters fs d n}. found_below fs m (d @ [n]) (k + 1))"
        using "3.IH"(2)[OF c a] g by blast
      moreover have "{x \<in> set (n # ns). enters fs d x} = insert n {x \<in> set ns. enters fs d x}"
        using True by auto
      ultimately show ?thesis using fg by simp
    next
      case False
      then have c: "\<not> (fs_is_dir fs (d @ [n]) \<and> \<not> startswith (name (d @ [n])) ''.'')"
        by (simp add: enters_code)
      have "scan_children fs m d ns k [] = Inr f"
        using f False by (simp add: scan_children_Cons)
      then have "set f = (\<Union>n \<in> {n \<in> set ns. enters fs d n}. found_below fs m (d @ [n]) (k + 1))"
        using "3.IH"(3)[OF c] by blast
      moreover have "{x \<in> set (n # ns). enters fs d x} = {x \<in> set ns. enters fs d x}"
        using False by auto
      ultimately show ?thesis by simp
    qed
  qed
qed





lemma reach_depth: "reach fs d j p \<Longrightarrow> \<exists>s. p = d @ s \<and> length s = j"
proof (induction rule: reach.induct)
  case (reach_here d)
  then show ?case by simp
next
  case (reach_child d names n j p)
  then obtain s where "p = (d @ [n]) @ s" "length s = j" by blast
  then have "p = d @ (n # s) \<and> length (n # s) = Suc j" by simp
  then show ?case by blast
qed

lemma reach_ancestors:
  "reach fs d j p \<Longrightarrow> prefix d q \<Longrightarrow> strict_prefix q p \<Longrightarrow> \<not> is_git_repository fs q"
proof (induction arbitrary: q rule: reach.induct)
  case (reach_here d)
  then show ?case by (auto simp: strict_prefix_def prefix_order.antisym)
next
  case (reach_child d names n j p)
  show ?case
  proof (cases "q = d")
    case True
    then show ?thesis using reach_child.hyps(1) by simp
  next
    case False
    from reach_child.hyps(5) obtain s where p: "p = (d @ [n]) @ s"
      using reach_depth by blast
    from \<open>prefix d q\<close> False obtain t where q: "q = d @ t" "t \<noteq> []"
      by (auto simp: prefix_def)
    from \<open>strict_prefix q p\<close> have "prefix (d @ t) (d @ n # s)"
      using p q by (simp add: strict_prefix_def)
    then have "prefix t (n # s)" by simp
    with q(2) obtain t' where "t = n # t'" by (cases t) auto
    then have "prefix (d @ [n]) q" using q by simp
    then show ?thesis using reach_child.IH \<open>strict_prefix q p\<close> by blast
  qed
qed

section \<open>The merge: auxiliary facts\<close>

lemma resolvable_canonical: "resolvable fs p \<Longrightarrow> fs_resolve fs p = Inr (canonical fs p)"
  by (cases "fs_resolve fs p") (auto simp: resolvable_def canonical_def)

lemma merge_loop_fresh:
  "\<forall>p \<in> set ps. resolvable fs p \<Longrightarrow>
   merge_loop fs ps seen merged = Inr (merged @ fresh seen (map (canonical fs) ps))"
proof (induction ps arbitrary: seen merged)
  case Nil
  then show ?case by simp
next
  case (Cons p ps)
  then have "fs_resolve fs p = Inr (canonical fs p)" by (simp add: resolvable_canonical)
  then show ?case using Cons by simp
qed

lemma fresh_index:
  "fresh S xs = [xs ! i. i \<leftarrow> [0..<length xs], xs ! i \<notin> S \<union> set (take i xs)]"
proof (induction xs arbitrary: S)
  case Nil
  then show ?case by simp
next
  case (Cons x xs)
  have u: "[0..<Suc (length xs)] = 0 # map Suc [0..<length xs]"
    by (simp add: upt_conv_Cons map_Suc_upt del: upt_Suc)
  show ?case
  proof (cases "x \<in> S")
    case True
    then have "insert x S = S" by auto
    then show ?thesis using Cons[of S] True
      by (auto simp add: u comp_def simp del: upt_Suc intro!: arg_cong[where f = concat])
  next
    case False
    then show ?thesis using Cons[of "insert x S"]
      by (auto simp add: u comp_def simp del: upt_Suc intro!: arg_cong[where f = concat])
  qed
qed

lemma first_occurrences_fresh: "first_occurrences xs = fresh {} xs"
  by (simp add: first_occurrences_def fresh_index)

lemma set_fresh: "set (fresh S xs) = set xs - S"
  by (induction xs arbitrary: S) auto

lemma distinct_fresh: "distinct (fresh S xs)"
  by (induction xs arbitrary: S) (auto simp: set_fresh)

lemma fresh_append: "fresh S (xs @ ys) = fresh S xs @ fresh (S \<union> set xs) ys"
  by (induction xs arbitrary: S) (auto simp: insert_absorb)

lemma fresh_filter: "fresh S xs = filter (\<lambda>x. x \<notin> S) (fresh {} xs)"
proof (induction xs arbitrary: S)
  case Nil
  then show ?case by simp
next
  case (Cons x xs)
  have a: "fresh {x} xs = filter (\<lambda>y. y \<notin> {x}) (fresh {} xs)" by (rule Cons)
  show ?case
  proof (cases "x \<in> S")
    case True
    have "filter (\<lambda>y. y \<notin> S) (filter (\<lambda>y. y \<notin> {x}) (fresh {} xs)) = filter (\<lambda>y. y \<notin> S) (fresh {} xs)"
      using True by (auto intro: filter_cong)
    then show ?thesis using True Cons[of S] a by simp
  next
    case False
    have "filter (\<lambda>y. y \<notin> S) (filter (\<lambda>y. y \<notin> {x}) (fresh {} xs)) = filter (\<lambda>y. y \<notin> insert x S) (fresh {} xs)"
      by (auto intro: filter_cong)
    then show ?thesis using False Cons[of "insert x S"] a by simp
  qed
qed

lemma fresh_distinct: "distinct xs \<Longrightarrow> set xs \<inter> S = {} \<Longrightarrow> fresh S xs = xs"
  by (induction xs arbitrary: S) auto

lemma fresh_seen: "set xs \<subseteq> S \<Longrightarrow> fresh S xs = []"
  by (induction xs arbitrary: S) auto

lemma first_occurrences_append:
  "first_occurrences (xs @ ys) =
     first_occurrences xs @ filter (\<lambda>y. y \<notin> set xs) (first_occurrences ys)"
  using fresh_filter[of "set xs" ys] by (simp add: first_occurrences_fresh fresh_append)

lemma merge_repositories_first_occurrences:
  "\<forall>p \<in> set (stored @ scanned). resolvable fs p \<Longrightarrow>
   merge_repositories fs stored scanned =
     Inr (first_occurrences (map (canonical fs) (stored @ scanned)))"
  unfolding merge_repositories_def first_occurrences_fresh
  using merge_loop_fresh[of "stored @ scanned" fs "{}" "[]"] by simp

section \<open>Properties of the scanner\<close>

lemma scan_for_repositories_scan:
  "fs_exists fs base_dir \<Longrightarrow> fs_resolve fs base_dir = Inr base \<Longrightarrow>
   scan_for_repositories fs base_dir max_depth = scan fs max_depth base 0 []"
  by (simp add: scan_for_repositories_def)

lemma scan_found: "scan fs m d k [] = Inr f \<Longrightarrow> set f = found_below fs m d k"
  using scan_found_all(1) by blast



lemma visited_depth: "p \<in> visited fs m d k \<Longrightarrow> \<exists>s. p = d @ s \<and> k + int (length s) \<le> m"
  unfolding visited_def using reach_depth by fastforce


lemma scan_repository:
  "is_git_repository fs d \<Longrightarrow> depth \<le> max_depth \<Longrightarrow>
   scan fs max_depth d depth repos = Inr (repos @ [d])"
  by (simp add: scan.simps[of fs max_depth d depth repos])

lemma visited_prefix: "p \<in> visited fs m d k \<Longrightarrow> prefix d p"
  using visited_depth by (metis prefixI)

text \<open>
  Claim C3. A visited directory that is a Git working tree is recorded, and the scan
  does not go below it: no path strictly below a recorded repository is in the result
  or is visited at all, and the call on the repository returns at once with the
  repository appended, whatever the directory holds.
\<close>

theorem scan_stops_at_repository:
  assumes "fs_exists fs base_dir"
    and "fs_resolve fs base_dir = Inr base"
    and "scan_for_repositories fs base_dir max_depth = Inr found"
    and "p \<in> visited fs max_depth base 0"
    and "is_git_repository fs p"
  shows "p \<in> set found \<and>
         (\<forall>q. strict_prefix p q \<longrightarrow> q \<notin> set found \<and> q \<notin> visited fs max_depth base 0) \<and>
         (\<forall>depth repos. depth \<le> max_depth \<longrightarrow>
            scan fs max_depth p depth repos = Inr (repos @ [p]))"
proof -
  have f: "scan fs max_depth base 0 [] = Inr found"
    using assms(1,2,3) by (simp add: scan_for_repositories_scan)
  have s: "set found = {p \<in> visited fs max_depth base 0. is_git_repository fs p}"
    using scan_found[OF f] by (simp add: found_below_visited)
  have 1: "p \<in> set found" using s assms(4,5) by simp
  have 2: "q \<notin> visited fs max_depth base 0" if "strict_prefix p q" for q
  proof
    assume "q \<in> visited fs max_depth base 0"
    then obtain j where "reach fs base j q" by (auto simp: visited_def)
    then have "\<not> is_git_repository fs p"
      using reach_ancestors visited_prefix[OF assms(4)] that by blast
    then show False using assms(5) by simp
  qed
  show ?thesis using 1 2 s scan_repository[OF assms(5)] by blast
qed





section \<open>The scanner on the example filesystems\<close>

lemma fs_tree_scan:
  "scan fs_tree 2 [''/'', ''.w''] 0 [] = Inr [[''/'', ''.w'', ''a''], [''/'', ''.w'', ''x'', ''b'']]"
  by code_simp

lemma fs_tree_base:
  "fs_exists fs_tree [''/'', ''.w'']" "fs_resolve fs_tree [''/'', ''.w''] = Inr [''/'', ''.w'']"
  by code_simp+



text \<open>Claim C3 on the example tree: \<^verbatim>\<open>x/b\<close> is recorded, the working tree \<^verbatim>\<open>x/b/sub\<close> inside it is not visited.\<close>

theorem scan_stops_at_repository_witness:
  "fs_exists fs_tree [''/'', ''.w''] \<and>
   fs_resolve fs_tree [''/'', ''.w''] = Inr [''/'', ''.w''] \<and>
   scan_for_repositories fs_tree [''/'', ''.w''] 2 =
     Inr [[''/'', ''.w'', ''a''], [''/'', ''.w'', ''x'', ''b'']] \<and>
   [''/'', ''.w'', ''x'', ''b''] \<in> visited fs_tree 2 [''/'', ''.w''] 0 \<and>
   is_git_repository fs_tree [''/'', ''.w'', ''x'', ''b''] \<and>
   is_git_repository fs_tree [''/'', ''.w'', ''x'', ''b'', ''sub''] \<and>
   [''/'', ''.w'', ''x'', ''b'', ''sub''] \<notin> visited fs_tree 2 [''/'', ''.w''] 0 \<and>
   scan fs_tree 2 [''/'', ''.w'', ''x'', ''b''] 2 [] = Inr [[''/'', ''.w'', ''x'', ''b'']]"
proof -
  have e: "scan_for_repositories fs_tree [''/'', ''.w''] 2 =
     Inr [[''/'', ''.w'', ''a''], [''/'', ''.w'', ''x'', ''b'']]"
    using fs_tree_scan fs_tree_base by (simp add: scan_for_repositories_scan)
  have v: "[''/'', ''.w'', ''x'', ''b''] \<in> visited fs_tree 2 [''/'', ''.w''] 0"
    using scan_found[OF fs_tree_scan] by (auto simp: found_below_visited)
  have r: "is_git_repository fs_tree [''/'', ''.w'', ''x'', ''b'']"
    "is_git_repository fs_tree [''/'', ''.w'', ''x'', ''b'', ''sub'']"
    by code_simp+
  have p: "strict_prefix [''/'', ''.w'', ''x'', ''b''] [''/'', ''.w'', ''x'', ''b'', ''sub'']"
    by simp
  from scan_stops_at_repository[OF fs_tree_base e v r(1)] p
  show ?thesis using fs_tree_base e v r by auto
qed




section \<open>Properties of the merge\<close>

lemma set_first_occurrences: "set (first_occurrences xs) = set xs"
  by (simp add: first_occurrences_fresh set_fresh)

lemma distinct_first_occurrences: "distinct (first_occurrences xs)"
  by (simp add: first_occurrences_fresh distinct_fresh)

lemma collect_repositories_merge:
  "base_directory config \<noteq> [] \<Longrightarrow> stored_paths (repositories config) = Inr stored \<Longrightarrow>
   scan_for_repositories fs (Path (base_directory config)) 2 = Inr scanned \<Longrightarrow>
   collect_repositories fs config = merge_repositories fs stored scanned"
  by (simp add: collect_repositories_def)

text \<open>
  Claim C1. For path sequences \<open>persisted\<close> and \<open>located\<close> whose entries can all be
  resolved, the merge returns the concatenation of \<open>persisted\<close> then \<open>located\<close>, each
  entry replaced by its canonical path, filtered to the first occurrence of each
  canonical path. This list is the first occurrences of \<open>persisted\<close> followed by those
  first occurrences of \<open>located\<close> that are not canonical paths of \<open>persisted\<close>: the
  persisted entries keep their order, a path of both sequences stands once, at its
  persisted position, and the entries of \<open>located\<close> alone come after all of them, in
  the order of \<open>located\<close>. No path occurs twice.
\<close>

theorem merge_keeps_first_occurrences:
  assumes "\<forall>p \<in> set (persisted @ located). resolvable fs p"
  shows "merge_repositories fs persisted located =
           Inr (first_occurrences (map (canonical fs) (persisted @ located))) \<and>
         first_occurrences (map (canonical fs) (persisted @ located)) =
           first_occurrences (map (canonical fs) persisted) @
           filter (\<lambda>q. q \<notin> canonical fs ` set persisted)
             (first_occurrences (map (canonical fs) located)) \<and>
         distinct (first_occurrences (map (canonical fs) (persisted @ located)))"
proof (intro conjI)
  show "merge_repositories fs persisted located =
          Inr (first_occurrences (map (canonical fs) (persisted @ located)))"
    using assms by (rule merge_repositories_first_occurrences)
  show "first_occurrences (map (canonical fs) (persisted @ located)) =
          first_occurrences (map (canonical fs) persisted) @
          filter (\<lambda>q. q \<notin> canonical fs ` set persisted)
            (first_occurrences (map (canonical fs) located))"
    by (simp add: first_occurrences_append)
  show "distinct (first_occurrences (map (canonical fs) (persisted @ located)))"
    by (rule distinct_first_occurrences)
qed

text \<open>Claim C1 on example paths: a link to \<^verbatim>\<open>/repo2\<close> is persisted, \<^verbatim>\<open>/repo2\<close> is located.\<close>

theorem merge_keeps_first_occurrences_witness:
  "list_all (resolvable fs_paths) ([[''/'', ''repo1''], [''/'', ''link'']] @ [[''/'', ''repo2''], [''repo3'']]) \<and>
   merge_repositories fs_paths [[''/'', ''repo1''], [''/'', ''link'']] [[''/'', ''repo2''], [''repo3'']] =
     Inr [[''/'', ''repo1''], [''/'', ''repo2''], [''/'', ''cwd'', ''repo3'']] \<and>
   first_occurrences (map (canonical fs_paths)
      ([[''/'', ''repo1''], [''/'', ''link'']] @ [[''/'', ''repo2''], [''repo3'']])) =
     [[''/'', ''repo1''], [''/'', ''repo2''], [''/'', ''cwd'', ''repo3'']]"
proof -
  have h: "\<forall>p \<in> set ([[''/'', ''repo1''], [''/'', ''link'']] @ [[''/'', ''repo2''], [''repo3'']]).
      resolvable fs_paths p"
    by code_simp
  have e: "merge_repositories fs_paths [[''/'', ''repo1''], [''/'', ''link'']] [[''/'', ''repo2''], [''repo3'']] =
     Inr [[''/'', ''repo1''], [''/'', ''repo2''], [''/'', ''cwd'', ''repo3'']]"
    by code_simp
  from merge_keeps_first_occurrences[OF h] e show ?thesis using h by simp
qed

text \<open>
  Claim C8. The merge is idempotent. On a filesystem where the entries of \<open>A\<close> and \<open>B\<close>
  can be resolved and where resolving a canonical path returns it unchanged, the merge
  \<open>M\<close> of \<open>A\<close> and \<open>B\<close> merged with \<open>B\<close> again is \<open>M\<close>, and so is \<open>M\<close> merged with
  itself or with any sequence of entries of \<open>M\<close>.
\<close>

theorem merge_idempotent:
  assumes "\<forall>p \<in> set (A @ B). resolvable fs p"
    and "\<forall>p \<in> set (A @ B). fs_resolve fs (canonical fs p) = Inr (canonical fs p)"
  shows "\<exists>M. merge_repositories fs A B = Inr M \<and>
             merge_repositories fs M B = Inr M \<and>
             merge_repositories fs M M = Inr M \<and>
             (\<forall>S. set S \<subseteq> set M \<longrightarrow> merge_repositories fs M S = Inr M)"
proof -
  define M where "M = fresh {} (map (canonical fs) (A @ B))"
  have m: "merge_repositories fs A B = Inr M"
    using merge_repositories_first_occurrences[OF assms(1)]
    by (simp add: M_def first_occurrences_fresh)
  have sM: "set M = canonical fs ` set (A @ B)" by (simp add: M_def set_fresh image_Un)
  have dM: "distinct M" by (simp add: M_def distinct_fresh)
  have stable: "fs_resolve fs q = Inr q" if "q \<in> set M" for q
    using that assms(2) sM by auto
  then have rM: "\<forall>q \<in> set M. resolvable fs q" by (simp add: resolvable_def)
  have cM: "canonical fs q = q" if "q \<in> set M" for q
    using stable[OF that] by (simp add: canonical_def)
  then have mapM: "map (canonical fs) M = M" by (simp add: map_idI)
  have gen: "merge_repositories fs M X = Inr M"
    if "\<forall>p \<in> set X. resolvable fs p" "canonical fs ` set X \<subseteq> set M" for X
  proof -
    have "\<forall>p \<in> set (M @ X). resolvable fs p" using rM that(1) by auto
    then have "merge_repositories fs M X = Inr (fresh {} (map (canonical fs) (M @ X)))"
      using merge_repositories_first_occurrences[of M X fs]
      by (simp add: first_occurrences_fresh)
    also have "fresh {} (map (canonical fs) (M @ X)) =
      fresh {} M @ fresh (set M) (map (canonical fs) X)"
      by (simp add: mapM fresh_append)
    also have "fresh {} M = M" using dM by (simp add: fresh_distinct)
    also have "fresh (set M) (map (canonical fs) X) = []"
      using that(2) by (simp add: fresh_seen)
    finally show ?thesis by simp
  qed
  have 1: "merge_repositories fs M B = Inr M"
    using gen[of B] assms(1) sM by auto
  have 2: "merge_repositories fs M S = Inr M" if "set S \<subseteq> set M" for S
    using gen[of S] rM cM that by (auto simp: subset_iff)
  show ?thesis using m 1 2 by blast
qed

text \<open>Claim C8 on the example paths.\<close>

theorem merge_idempotent_witness:
  "list_all (resolvable fs_paths) ([[''/'', ''repo1''], [''/'', ''link'']] @ [[''/'', ''repo2''], [''repo3'']]) \<and>
   list_all (\<lambda>p. fs_resolve fs_paths (canonical fs_paths p) = Inr (canonical fs_paths p))
     ([[''/'', ''repo1''], [''/'', ''link'']] @ [[''/'', ''repo2''], [''repo3'']]) \<and>
   merge_repositories fs_paths [[''/'', ''repo1''], [''/'', ''link'']] [[''/'', ''repo2''], [''repo3'']] =
     Inr [[''/'', ''repo1''], [''/'', ''repo2''], [''/'', ''cwd'', ''repo3'']] \<and>
   merge_repositories fs_paths [[''/'', ''repo1''], [''/'', ''repo2''], [''/'', ''cwd'', ''repo3'']]
     [[''/'', ''repo2''], [''repo3'']] =
     Inr [[''/'', ''repo1''], [''/'', ''repo2''], [''/'', ''cwd'', ''repo3'']]"
proof -
  have h: "\<forall>p \<in> set ([[''/'', ''repo1''], [''/'', ''link'']] @ [[''/'', ''repo2''], [''repo3'']]).
      resolvable fs_paths p"
    "\<forall>p \<in> set ([[''/'', ''repo1''], [''/'', ''link'']] @ [[''/'', ''repo2''], [''repo3'']]).
      fs_resolve fs_paths (canonical fs_paths p) = Inr (canonical fs_paths p)"
    by code_simp+
  have e: "merge_repositories fs_paths [[''/'', ''repo1''], [''/'', ''link'']] [[''/'', ''repo2''], [''repo3'']] =
     Inr [[''/'', ''repo1''], [''/'', ''repo2''], [''/'', ''cwd'', ''repo3'']]"
    by code_simp
  from merge_idempotent[OF h] e show ?thesis using h by auto
qed

lemma merge_loop_error:
  "\<forall>p \<in> set pre. resolvable fs p \<Longrightarrow> fs_resolve fs bad = Inl e \<Longrightarrow>
   merge_loop fs (pre @ bad # post) seen merged = Inl e"
proof (induction pre arbitrary: seen merged)
  case Nil
  then show ?case by simp
next
  case (Cons p pre)
  then have "fs_resolve fs p = Inr (canonical fs p)" by (simp add: resolvable_canonical)
  then show ?case using Cons by simp
qed

text \<open>
  Claim C7, as amended. The merge resolves its entries in order and catches nothing:
  when every entry can be resolved it returns, and the canonical path of every entry is
  in the result, so that no entry is dropped; when an entry cannot be resolved, and the
  entries before it can, the merge raises the exception of that entry and returns no
  list.
\<close>

theorem merge_propagates_resolve_error:
  "((\<forall>p \<in> set (stored @ scanned). resolvable fs p) \<longrightarrow>
      (\<exists>merged. merge_repositories fs stored scanned = Inr merged \<and>
                set merged = canonical fs ` set (stored @ scanned))) \<and>
   (stored @ scanned = pre @ bad # post \<and> (\<forall>p \<in> set pre. resolvable fs p) \<and>
      fs_resolve fs bad = Inl e \<longrightarrow>
      merge_repositories fs stored scanned = Inl e)"
proof -
  have 1: "\<exists>merged. merge_repositories fs stored scanned = Inr merged \<and>
                set merged = canonical fs ` set (stored @ scanned)"
    if "\<forall>p \<in> set (stored @ scanned). resolvable fs p"
    using merge_repositories_first_occurrences[OF that] set_first_occurrences[of "map (canonical fs) (stored @ scanned)"]
    by (simp add: image_Un)
  have 2: "merge_repositories fs stored scanned = Inl e"
    if "stored @ scanned = pre @ bad # post" "\<forall>p \<in> set pre. resolvable fs p"
       "fs_resolve fs bad = Inl e"
    using merge_loop_error[OF that(2,3)] that(1) by (simp add: merge_repositories_def)
  show ?thesis using 1 2 by blast
qed

text \<open>
  Claim C7 as stated fails: an entry with a null byte cannot be resolved, and the merge
  raises \<^verbatim>\<open>ValueError\<close> where the claim has it return the remaining entry; an entry that
  is no string makes \<^verbatim>\<open>_collect_repositories\<close> raise \<^verbatim>\<open>TypeError\<close>.
\<close>

theorem merge_malformed_entry_counterexample:
  "fs_resolve fs_paths [[CHR 0x00]] = Inl ValueError \<and>
   merge_repositories fs_paths [[[CHR 0x00]], [''/'', ''repo1'']] [] = Inl ValueError \<and>
   merge_repositories fs_paths [[[CHR 0x00]], [''/'', ''repo1'']] [] \<noteq> Inr [[''/'', ''repo1'']] \<and>
   collect_repositories fs_paths
     \<lparr>base_directory = ''/b'', repositories = [JOther, JString ''/repo1'']\<rparr> = Inl TypeError"
  by code_simp

text \<open>Claim C7 as amended, on a list with a looping link and on a list that resolves.\<close>

theorem merge_propagates_resolve_error_witness:
  "[[''/'', ''repo1''], [''/'', ''loop''], [''/'', ''repo2'']] @ [] =
     [[''/'', ''repo1'']] @ [''/'', ''loop''] # [[''/'', ''repo2'']] \<and>
   list_all (resolvable fs_paths) [[''/'', ''repo1'']] \<and>
   fs_resolve fs_paths [''/'', ''loop''] = Inl RuntimeError \<and>
   merge_repositories fs_paths [[''/'', ''repo1''], [''/'', ''loop''], [''/'', ''repo2'']] [] =
     Inl RuntimeError \<and>
   list_all (resolvable fs_paths) ([[''/'', ''repo1''], [''/'', ''link'']] @ [[''/'', ''repo2'']]) \<and>
   (\<exists>merged. merge_repositories fs_paths [[''/'', ''repo1''], [''/'', ''link'']] [[''/'', ''repo2'']] =
       Inr merged \<and>
     set merged = canonical fs_paths ` set ([[''/'', ''repo1''], [''/'', ''link'']] @ [[''/'', ''repo2'']]))"
proof -
  have a: "[[''/'', ''repo1''], [''/'', ''loop''], [''/'', ''repo2'']] @ [] =
     [[''/'', ''repo1'']] @ [''/'', ''loop''] # [[''/'', ''repo2'']]"
    by simp
  have b: "\<forall>p \<in> set [[''/'', ''repo1'']]. resolvable fs_paths p"
    "fs_resolve fs_paths [''/'', ''loop''] = Inl RuntimeError"
    "\<forall>p \<in> set ([[''/'', ''repo1''], [''/'', ''link'']] @ [[''/'', ''repo2'']]). resolvable fs_paths p"
    by code_simp+
  have 1: "merge_repositories fs_paths [[''/'', ''repo1''], [''/'', ''loop''], [''/'', ''repo2'']] [] =
     Inl RuntimeError"
    using merge_propagates_resolve_error[of "[[''/'', ''repo1''], [''/'', ''loop''], [''/'', ''repo2'']]" "[]"
      fs_paths "[[''/'', ''repo1'']]" "[''/'', ''loop'']" "[[''/'', ''repo2'']]" RuntimeError] a b(1,2)
    by blast
  have 2: "\<exists>merged. merge_repositories fs_paths [[''/'', ''repo1''], [''/'', ''link'']] [[''/'', ''repo2'']] =
       Inr merged \<and>
     set merged = canonical fs_paths ` set ([[''/'', ''repo1''], [''/'', ''link'']] @ [[''/'', ''repo2'']])"
    using merge_propagates_resolve_error[of "[[''/'', ''repo1''], [''/'', ''link'']]" "[[''/'', ''repo2'']]"
      fs_paths "[]" "[]" "[]" RuntimeError] b(3)
    by blast
  have 3: "list_all (resolvable fs_paths) [[''/'', ''repo1'']]"
    "list_all (resolvable fs_paths) ([[''/'', ''repo1''], [''/'', ''link'']] @ [[''/'', ''repo2'']])"
    using b(1,3) by (simp_all only: list_all_iff)
  show ?thesis using a b(2) 1 2 3 by (intro conjI)
qed

section \<open>The repository set\<close>





section \<open>Properties of the Git manager\<close>









end
